theory Spec2Isabelle
  imports Main "HOL-Library.Word" "HOL-Library.Sublist"
begin

unbundle bit_operations_syntax

section \<open>zynq-bit2bin: the streams and the diagnostics\<close>

text \<open>
  The program of \<^verbatim>\<open>zynq-bit2bin.c\<close> reads \<^verbatim>\<open>stdin\<close> front to back, writes the
  firmware to \<^verbatim>\<open>stdout\<close> and prints metadata and error messages on \<^verbatim>\<open>stderr\<close>.
  A byte is a \<open>uint8_t\<close>, the lengths decoded from the file are \<open>uint32_t\<close>.
\<close>

type_synonym u8 = "8 word"
type_synonym u32 = "32 word"

text \<open>
  One constructor for each \<^verbatim>\<open>fprintf(stderr, ...)\<close> that goes with a \<^verbatim>\<open>return -1\<close>,
  carrying the arguments of its format string.
\<close>

datatype error =
    Error_reading_number nat nat    \<comment> \<open>\<^verbatim>\<open>Error reading a %d Bytes number (%d)\<close>\<close>
  | Field_too_large                 \<comment> \<open>\<^verbatim>\<open>Encountered a field size too large for me\<close>\<close>
  | Cannot_read_whole_field nat     \<comment> \<open>\<^verbatim>\<open>Cannot read the whole field (%d)\<close>\<close>
  | Unable_to_read_magic            \<comment> \<open>\<^verbatim>\<open>Unable to read the magic header\<close>\<close>
  | Invalid_magic_header            \<comment> \<open>\<^verbatim>\<open>Invalid magic header\<close>\<close>
  | Invalid_buffer_size nat         \<comment> \<open>\<^verbatim>\<open>Invalid buffer size %d when attempting to invert u32 endianness\<close>\<close>
  | Firmware_too_small nat          \<comment> \<open>\<^verbatim>\<open>The firmware blob is too small (%d)\<close>\<close>
  | Firmware_not_aligned            \<comment> \<open>\<^verbatim>\<open>The firmware is not 4 Bytes aligned\<close>\<close>
  | Cannot_read_chunk nat           \<comment> \<open>\<^verbatim>\<open>Cannot read first chunk of firmware (%d)\<close>\<close>
  | Invalid_SYNC_word u8 u8 u8 u8   \<comment> \<open>\<^verbatim>\<open>Invalid SYNC word (%02hhX%02hhX%02hhX%02hhX)\<close>\<close>
  | Unable_to_write nat             \<comment> \<open>\<^verbatim>\<open>Unable to write to output (%d)\<close>\<close>
  | Cannot_read_field_type nat      \<comment> \<open>\<^verbatim>\<open>Cannot read field type (%d)\<close>\<close>
  | Unknown_field_type u8           \<comment> \<open>\<^verbatim>\<open>Unknown field type %02hhX\<close>\<close>

text \<open>A line of \<^verbatim>\<open>stderr\<close>: an error message, or the \<^verbatim>\<open>"* %s\n"\<close> of a metadata field.\<close>

datatype line = Report error | Meta "u8 list"

text \<open>
  The state of the three streams. \<open>inp\<close> is what is still unread on the input;
  \<open>outp\<close> is what the output has accepted so far and \<open>room\<close> how many more bytes it
  will accept (a sink that never refuses is one with enough room for the run);
  \<open>errs\<close> is the diagnostic stream. \<open>inv_calls\<close> is a history variable that the
  program does not have: \<open>invert_u32_endianness\<close> appends to it the size \<open>n\<close> it
  is called with, so that statements on its callers can speak of these sizes.
\<close>

record io =
  inp :: "u8 list"
  outp :: "u8 list"
  room :: nat
  errs :: "line list"
  inv_calls :: "nat list"

text \<open>\<^verbatim>\<open>fread(buf, 1, n, input)\<close>: the bytes read (the return value is their number).\<close>

definition fread :: "nat \<Rightarrow> io \<Rightarrow> u8 list \<times> io" where
  "fread n s = (take n (inp s), s\<lparr>inp := drop n (inp s)\<rparr>)"

text \<open>\<^verbatim>\<open>fwrite(buf, 1, n, output)\<close>: the number of bytes that the sink accepted.\<close>

definition fwrite :: "u8 list \<Rightarrow> io \<Rightarrow> nat \<times> io" where
  "fwrite buf s =
     (let r = min (length buf) (room s)
      in (r, s\<lparr>outp := outp s @ take r buf, room := room s - r\<rparr>))"

definition eprint :: "line \<Rightarrow> io \<Rightarrow> io" where
  "eprint l s = s\<lparr>errs := errs s @ [l]\<rparr>"

text \<open>Print the message of an error and \<^verbatim>\<open>return -1\<close>.\<close>

definition fail :: "error \<Rightarrow> io \<Rightarrow> (error + 'a) \<times> io" where
  "fail e s = (Inl e, eprint (Report e) s)"

text \<open>The \<^verbatim>\<open>int\<close> that the C function returns.\<close>

definition return_code :: "error + 'a \<Rightarrow> int" where
  "return_code r = (case r of Inl _ \<Rightarrow> - 1 | Inr _ \<Rightarrow> 0)"

section \<open>Constants\<close>

definition MAX_META_FIELD_LENGTH :: nat where
  "MAX_META_FIELD_LENGTH = 256"

definition BIT_MAGIC_HEADER :: "u8 list" where
  "BIT_MAGIC_HEADER =
     [0x00, 0x09, 0x0f, 0xf0, 0x0f, 0xf0, 0x0f, 0xf0,
      0x0f, 0xf0, 0x00, 0x00, 0x01]"

definition FIRMWARE_MAGIC_HEADER :: "u8 list" where
  "FIRMWARE_MAGIC_HEADER =
     [0xff, 0xff, 0xff, 0xff, 0xff, 0xff, 0xff, 0xff,
      0xff, 0xff, 0xff, 0xff, 0xff, 0xff, 0xff, 0xff,
      0xff, 0xff, 0xff, 0xff, 0xff, 0xff, 0xff, 0xff,
      0xff, 0xff, 0xff, 0xff, 0xff, 0xff, 0xff, 0xff,
      0x00, 0x00, 0x00, 0xbb, 0x11, 0x22, 0x00, 0x44,
      0xff, 0xff, 0xff, 0xff, 0xff, 0xff, 0xff, 0xff]"

text \<open>The two string literals that the first chunk is compared with.\<close>

definition SYNC_inverted :: "u8 list" where
  "SYNC_inverted = [0xaa, 0x99, 0x55, 0x66]"

definition SYNC_canonical :: "u8 list" where
  "SYNC_canonical = [0x66, 0x55, 0x99, 0xaa]"

section \<open>\<open>read_uint\<close>\<close>

text \<open>
  \<^verbatim>\<open>*res = (*res << 8) | buf[i]\<close> on a \<open>uint32_t\<close>: with more than four bytes the
  high bits are shifted out.
\<close>

definition read_uint :: "nat \<Rightarrow> io \<Rightarrow> (error + u32) \<times> io" where
  "read_uint bytes s =
     (let (buf, s1) = fread bytes s; r = length buf
      in if r \<noteq> bytes then fail (Error_reading_number bytes r) s1
         else (Inr (foldl (\<lambda>res b. push_bit 8 res OR ucast b) 0 buf), s1))"

section \<open>\<open>read_meta_field\<close>\<close>

text \<open>
  What \<^verbatim>\<open>%s\<close> prints of a \<open>char\<close> array: the bytes before the first zero byte.
  With no zero byte in the array the read runs past its end, which C leaves
  undefined: \<open>None\<close>.
\<close>

definition percent_s :: "u8 list \<Rightarrow> u8 list option" where
  "percent_s buf = (if 0 \<in> set buf then Some (takeWhile (\<lambda>c. c \<noteq> 0) buf) else None)"

text \<open>
  \<^verbatim>\<open>char buf[MAX_META_FIELD_LENGTH]\<close> is not initialised and nothing terminates the
  bytes that \<^verbatim>\<open>fread\<close> stores in it. \<open>junk\<close> is the content of the 256 bytes of
  \<open>buf\<close> when the function is entered; the result is \<open>None\<close> where the behaviour
  is undefined.
\<close>

definition read_meta_field :: "u8 list \<Rightarrow> io \<Rightarrow> ((error + unit) \<times> io) option" where
  "read_meta_field junk s =
     (case read_uint 2 s of
        (Inl e, s1) \<Rightarrow> Some (Inl e, s1)
      | (Inr field_length, s1) \<Rightarrow>
          if unat field_length > MAX_META_FIELD_LENGTH then Some (fail Field_too_large s1)
          else
            let (body, s2) = fread (unat field_length) s1;
                buf = body @ drop (length body) junk;
                r = length body
            in if r \<noteq> unat field_length then Some (fail (Cannot_read_whole_field r) s2)
               else (case percent_s buf of
                       None \<Rightarrow> None
                     | Some text \<Rightarrow> Some (Inr (), eprint (Meta text) s2)))"

section \<open>\<open>read_magic_header\<close>\<close>

text \<open>\<^verbatim>\<open>memcmp(buf, expected, bytes)\<close> compares the first \<open>bytes\<close> bytes.\<close>

definition read_magic_header :: "u8 list \<Rightarrow> nat \<Rightarrow> io \<Rightarrow> (error + unit) \<times> io" where
  "read_magic_header expected bytes s =
     (let (buf, s1) = fread bytes s; r = length buf
      in if r \<noteq> bytes then fail Unable_to_read_magic s1
         else if buf \<noteq> take bytes expected then fail Invalid_magic_header s1
         else (Inr (), s1))"

text \<open>The macro: \<^verbatim>\<open>read_magic_header(input, expected, sizeof(expected))\<close>.\<close>

definition READ_MAGIC_HEADER :: "u8 list \<Rightarrow> io \<Rightarrow> (error + unit) \<times> io" where
  "READ_MAGIC_HEADER expected s = read_magic_header expected (length expected) s"

section \<open>\<open>invert_u32_endianness\<close>\<close>

text \<open>
  The \<^verbatim>\<open>for (size_t i=0; i<n; i+=4)\<close> loop, from index \<open>i\<close> on, with its six
  assignments in their order. It is entered with \<open>n\<close> a multiple of 4 and by a caller
  whose buffer has at least \<open>n\<close> bytes, so every index is inside the buffer.
\<close>

function invert_words :: "nat \<Rightarrow> nat \<Rightarrow> u8 list \<Rightarrow> u8 list" where
  "invert_words i n buf =
     (if i < n then
        (let tmp = buf ! i;
             buf = buf[i := buf ! (i + 3)];
             buf = buf[i + 3 := tmp];
             tmp = buf ! (i + 1);
             buf = buf[i + 1 := buf ! (i + 2)];
             buf = buf[i + 2 := tmp]
         in invert_words (i + 4) n buf)
      else buf)"
  by pat_completeness auto
termination
  by (relation "measure (\<lambda>(i, n, buf). n - i)") auto

declare invert_words.simps [simp del]

text \<open>The result is the return value, the buffer after the call and the streams.\<close>

definition invert_u32_endianness :: "u8 list \<Rightarrow> nat \<Rightarrow> io \<Rightarrow> (error + unit) \<times> u8 list \<times> io" where
  "invert_u32_endianness buf n s =
     (let s0 = s\<lparr>inv_calls := inv_calls s @ [n]\<rparr>
      in if n mod 4 \<noteq> 0 then
           (case fail (Invalid_buffer_size n) s0 of (r, s1) \<Rightarrow> (r, buf, s1))
         else (Inr (), invert_words 0 n buf, s0))"

section \<open>\<open>process_firmware\<close>\<close>

text \<open>
  Step 5, the \<^verbatim>\<open>while (fw_length > 0)\<close> loop. \<open>fw_length\<close> never wraps here
  (\<open>chunk_len\<close> is at most \<open>fw_length\<close>), so it is a natural number. The return value
  of \<open>invert_u32_endianness\<close> is not looked at. \<open>process_firmware\<close> enters the loop
  with at least 4 bytes to copy, so the first chunk holds the 4 bytes that
  \<^verbatim>\<open>memcmp\<close> reads.
\<close>

function copy_chunks :: "nat \<Rightarrow> nat \<Rightarrow> bool \<Rightarrow> io \<Rightarrow> (error + unit) \<times> io" where
  "copy_chunks fw_length chunks_done invert_endian s =
     (if fw_length > 0 then
        let chunk_len = min 4096 fw_length;
            (chunk, s1) = fread chunk_len s;
            r = length chunk
        in if r \<noteq> chunk_len then fail (Cannot_read_chunk r) s1
           else
             (case (if chunks_done = 0 then
                      (if take 4 chunk = SYNC_inverted then Inr True
                       else if take 4 chunk \<noteq> SYNC_canonical then
                         Inl (Invalid_SYNC_word (chunk ! 0) (chunk ! 1) (chunk ! 2) (chunk ! 3))
                       else Inr invert_endian)
                    else Inr invert_endian) of
                Inl e \<Rightarrow> fail e s1
              | Inr invert_endian \<Rightarrow>
                  let (chunk, s2) =
                        (if invert_endian then
                           (case invert_u32_endianness chunk chunk_len s1 of
                              (_, chunk', s') \<Rightarrow> (chunk', s'))
                         else (chunk, s1));
                      (r, s3) = fwrite chunk s2
                  in if r \<noteq> chunk_len then fail (Unable_to_write r) s3
                     else copy_chunks (fw_length - chunk_len) (chunks_done + 1) invert_endian s3)
      else (Inr (), s))"
  by pat_completeness auto
termination
  by (relation "measure (\<lambda>(fw_length, chunks_done, invert_endian, s). fw_length)") auto

declare copy_chunks.simps [simp del]

text \<open>
  Steps 1 to 4. The comparisons and the subtraction of \<^verbatim>\<open>sizeof(FIRMWARE_MAGIC_HEADER)\<close>
  are on the \<open>uint32_t\<close> that \<open>read_uint\<close> returned.
\<close>

definition process_firmware :: "io \<Rightarrow> (error + unit) \<times> io" where
  "process_firmware s =
     (case read_uint 4 s of
        (Inl e, s1) \<Rightarrow> (Inl e, s1)
      | (Inr fw_length, s1) \<Rightarrow>
          if unat fw_length < 4 + length FIRMWARE_MAGIC_HEADER then
            fail (Firmware_too_small (unat fw_length)) s1
          else if unat fw_length mod 4 \<noteq> 0 then fail Firmware_not_aligned s1
          else
            (case READ_MAGIC_HEADER FIRMWARE_MAGIC_HEADER s1 of
               (Inl e, s2) \<Rightarrow> (Inl e, s2)
             | (Inr _, s2) \<Rightarrow>
                 copy_chunks (unat (fw_length - of_nat (length FIRMWARE_MAGIC_HEADER))) 0 False s2))"

section \<open>\<open>process_bit_file\<close> and \<open>main\<close>\<close>

text \<open>
  The \<^verbatim>\<open>do ... while (field_type != 0x65)\<close> loop. \<open>junk k\<close> is what the buffer of
  \<open>read_meta_field\<close> holds when it is called for the \<open>k\<close>-th time, counting from 0.
\<close>

function read_fields :: "(nat \<Rightarrow> u8 list) \<Rightarrow> nat \<Rightarrow> io \<Rightarrow> ((error + unit) \<times> io) option" where
  "read_fields junk k s =
     (let (buf, s1) = fread 1 s; r = length buf
      in if r \<noteq> 1 then Some (fail (Cannot_read_field_type r) s1)
         else
           let field_type = hd buf
           in if field_type = 0x61 \<or> field_type = 0x62 \<or> field_type = 0x63 \<or> field_type = 0x64
              then
                (case read_meta_field (junk k) s1 of
                   None \<Rightarrow> None
                 | Some (Inl e, s2) \<Rightarrow> Some (Inl e, s2)
                 | Some (Inr _, s2) \<Rightarrow> read_fields junk (k + 1) s2)
              else if field_type = 0x65 then
                (case process_firmware s1 of
                   (Inl e, s2) \<Rightarrow> Some (Inl e, s2)
                 | (Inr _, s2) \<Rightarrow> Some (Inr (), s2))
              else Some (fail (Unknown_field_type field_type) s1))"
  by pat_completeness auto
termination
proof (relation "measure (\<lambda>(junk, k, s). length (inp s))")
  show "wf (measure (\<lambda>(junk, k, s). length (inp s)))" by simp
next
  fix junk :: "nat \<Rightarrow> u8 list" and k s x buf s1 r field_type x2 res s2 u
  assume a: "(buf, s1) = x" "x = fread 1 s" "r = length buf" "\<not> r \<noteq> 1"
    and m: "read_meta_field (junk k) s1 = Some x2" "(res, s2) = x2" "res = Inr u"
  from a have s1: "inp s1 = drop 1 (inp s)" and ne: "inp s \<noteq> []"
    by (auto simp: fread_def)
  from m have "length (inp s2) \<le> length (inp s1)"
    by (auto simp: read_meta_field_def read_uint_def fread_def fail_def eprint_def Let_def
             split: prod.splits sum.splits if_splits option.splits)
  with s1 ne show "((junk, k + 1, s2), junk, k, s) \<in> measure (\<lambda>(junk, k, s). length (inp s))"
    by (cases "inp s") auto
qed

declare read_fields.simps [simp del]

text \<open>The value of \<open>READ_MAGIC_HEADER(input, BIT_MAGIC_HEADER)\<close> is not looked at.\<close>

definition process_bit_file :: "(nat \<Rightarrow> u8 list) \<Rightarrow> io \<Rightarrow> ((error + unit) \<times> io) option" where
  "process_bit_file junk s =
     (case READ_MAGIC_HEADER BIT_MAGIC_HEADER s of (_, s1) \<Rightarrow> read_fields junk 0 s1)"

text \<open>\<open>main\<close> returns what \<open>process_bit_file\<close> returns: the exit status of the run.\<close>

definition main :: "(nat \<Rightarrow> u8 list) \<Rightarrow> io \<Rightarrow> (int \<times> io) option" where
  "main junk s = map_option (\<lambda>(r, s'). (return_code r, s')) (process_bit_file junk s)"

section \<open>Functions of the specification\<close>

text \<open>The unsigned big-endian value of a byte sequence, most significant byte first.\<close>

definition big_endian :: "u8 list \<Rightarrow> nat" where
  "big_endian bs = foldl (\<lambda>v b. v * 256 + unat b) 0 bs"

text \<open>
  What the specification asks of the endianness corrector, on a byte sequence: the bytes
  of each consecutive 4-byte word in reverse order. (Less than four bytes left over at
  the end stay as they are.)
\<close>

fun swap_words :: "u8 list \<Rightarrow> u8 list" where
  "swap_words (a # b # c # d # xs) = d # c # b # a # swap_words xs"
| "swap_words xs = xs"

text \<open>The payload as the output is to hold it, in the inverted and in the canonical mode.\<close>

definition corrected :: "bool \<Rightarrow> u8 list \<Rightarrow> u8 list" where
  "corrected inverted payload = (if inverted then swap_words payload else payload)"

text \<open>The sizes of the chunks that \<open>n\<close> bytes are copied in: 4096 bytes, and what is left.\<close>

definition chunk_lengths :: "nat \<Rightarrow> nat list" where
  "chunk_lengths n = replicate (n div 4096) 4096 @ (if n mod 4096 = 0 then [] else [n mod 4096])"

text \<open>
  Of an input that stands at the body of a firmware field (the 4 bytes of
  \<open>total_length\<close>, the 48 bytes of the embedded magic header, the payload): the payload
  bytes that are there, and whether they start with the inverted SYNC word.
\<close>

definition firmware_payload :: "u8 list \<Rightarrow> u8 list" where
  "firmware_payload i = take (big_endian (take 4 i) - 48) (drop 52 i)"

definition firmware_inverted :: "u8 list \<Rightarrow> bool" where
  "firmware_inverted i = (take 4 (drop 52 i) = SYNC_inverted)"

section \<open>\<open>read_uint\<close> decodes big-endian numbers\<close>

lemma big_endian_snoc: "big_endian (bs @ [b]) = big_endian bs * 256 + unat b"
  by (simp add: big_endian_def)

lemma unat_u8_less: "unat (b::u8) < 256"
  using unsigned_less [of b, where ?'a = nat] by simp

lemma big_endian_bound: "big_endian bs < 256 ^ length bs"
proof (induction bs rule: rev_induct)
  case Nil
  show ?case by (simp add: big_endian_def)
next
  case (snoc b bs)
  have "big_endian bs + 1 \<le> 256 ^ length bs" using snoc by simp
  then have "(big_endian bs + 1) * 256 \<le> 256 ^ length bs * 256" by (rule mult_le_mono1)
  with unat_u8_less [of b] show ?case by (simp add: big_endian_snoc)
qed

lemma unat_ucast_u8_u32: "unat (ucast (b::u8) :: u32) = unat b"
  using unat_u8_less [of b] by (simp add: unsigned_ucast_eq take_bit_nat_eq_self)

text \<open>While the accumulator is below \<open>2^24\<close>, shifting and or-ing a byte loses nothing.\<close>

lemma unat_shift_or:
  assumes "unat (r::u32) < 2 ^ 24"
  shows "unat (push_bit 8 r OR ucast (b::u8)) = unat r * 256 + unat b"
proof -
  have "push_bit 8 r OR (ucast b :: u32) = push_bit 8 r + ucast b"
    by (rule disjunctive_add [symmetric]) (auto simp: bit_simps dest: bit_imp_le_length)
  moreover have "unat (push_bit 8 r + (ucast b :: u32)) = unat r * 256 + unat b"
  proof -
    have "unat r * 256 + unat b < 2 ^ 32" using assms unat_u8_less [of b] by simp
    then show ?thesis
      by (simp add: push_bit_eq_mult unat_word_ariths unat_ucast_u8_u32)
  qed
  ultimately show ?thesis by simp
qed

lemma unat_accumulate:
  "length bs \<le> 4 \<Longrightarrow>
   unat (foldl (\<lambda>res b. push_bit 8 res OR ucast b) (0::u32) (bs :: u8 list)) = big_endian bs"
proof (induction bs rule: rev_induct)
  case Nil
  show ?case by (simp add: big_endian_def)
next
  case (snoc b bs)
  let ?r = "foldl (\<lambda>res b. push_bit 8 res OR ucast b) (0::u32) bs"
  from snoc have r: "unat ?r = big_endian bs" and len: "length bs \<le> 3" by simp_all
  have "(256::nat) ^ length bs \<le> 256 ^ 3" using len by (intro power_increasing) simp_all
  with big_endian_bound [of bs] have "unat ?r < 2 ^ 24" by (simp add: r)
  then show ?case by (simp add: unat_shift_or r big_endian_snoc)
qed

lemma read_uint_available:
  assumes "length bs = n" and "n \<le> 4" and "inp s = bs @ rest"
  shows "\<exists>v. read_uint n s = (Inr v, s\<lparr>inp := rest\<rparr>) \<and> unat v = big_endian bs"
proof -
  from assms have "unat (foldl (\<lambda>res b. push_bit 8 res OR ucast b) (0::u32) bs) = big_endian bs"
    by (intro unat_accumulate) simp
  with assms show ?thesis by (simp add: read_uint_def fread_def)
qed

lemma read_uint_short:
  "length (inp s) < n \<Longrightarrow>
   read_uint n s = fail (Error_reading_number n (length (inp s))) (s\<lparr>inp := []\<rparr>)"
  by (simp add: read_uint_def fread_def)

text \<open>
  C3. For \<open>n\<close> from 1 to 4 and \<open>n\<close> bytes \<open>bs\<close> at the front of the input, \<open>read_uint\<close>
  consumes exactly these bytes and returns their unsigned big-endian value; with fewer
  than \<open>n\<close> bytes on the input it fails.
\<close>

theorem read_uint_big_endian:
  assumes "n \<in> {1, 2, 3, 4}"
  shows "(length bs = n \<and> inp s = bs @ rest \<longrightarrow>
            (\<exists>v. read_uint n s = (Inr v, s\<lparr>inp := rest\<rparr>) \<and> unat v = big_endian bs)) \<and>
         (length (inp s) < n \<longrightarrow>
            read_uint n s = fail (Error_reading_number n (length (inp s))) (s\<lparr>inp := []\<rparr>))"
proof (intro conjI impI)
  assume h: "length bs = n \<and> inp s = bs @ rest"
  moreover from assms have "n \<le> 4" by auto
  ultimately show "\<exists>v. read_uint n s = (Inr v, s\<lparr>inp := rest\<rparr>) \<and> unat v = big_endian bs"
    by (intro read_uint_available) simp_all
next
  assume "length (inp s) < n"
  then show "read_uint n s = fail (Error_reading_number n (length (inp s))) (s\<lparr>inp := []\<rparr>)"
    by (rule read_uint_short)
qed

text \<open>The bytes \<open>00 00 01 00\<close> are read as 256, and the byte after them is left unread.\<close>

theorem read_uint_big_endian_witness:
  "\<exists>v. read_uint 4 \<lparr>inp = [0, 0, 1, 0, 0x65], outp = [], room = 0, errs = [], inv_calls = []\<rparr>
         = (Inr v, \<lparr>inp = [0x65], outp = [], room = 0, errs = [], inv_calls = []\<rparr>) \<and> unat v = 256"
  using read_uint_big_endian [of 4 "[0, 0, 1, 0]"
     "\<lparr>inp = [0, 0, 1, 0, 0x65], outp = [], room = 0, errs = [], inv_calls = []\<rparr>" "[0x65]"]
  by (simp add: big_endian_def)

section \<open>The corrector swaps the bytes of every word\<close>

lemma swap_words_append:
  "length xs mod 4 = 0 \<Longrightarrow> swap_words (xs @ ys) = swap_words xs @ swap_words ys"
  by (induction xs rule: swap_words.induct) simp_all

lemma length_swap_words: "length (swap_words xs) = length xs"
  by (induction xs rule: swap_words.induct) simp_all

lemma swap_words_twice: "swap_words (swap_words xs) = xs"
  by (induction xs rule: swap_words.induct) simp_all

lemma invert_words_done: "invert_words n n buf = buf"
  by (subst invert_words.simps) simp

text \<open>The loop at index \<open>i\<close>, with \<open>pre\<close> before it and the words \<open>mid\<close> up to \<open>n\<close>.\<close>

lemma invert_words_swap:
  "length pre = i \<Longrightarrow> length mid mod 4 = 0 \<Longrightarrow> n = i + length mid \<Longrightarrow>
   invert_words i n (pre @ mid @ post) = pre @ swap_words mid @ post"
proof (induction mid arbitrary: pre i rule: swap_words.induct)
  case (1 a b c d xs)
  have "invert_words i n (pre @ (a # b # c # d # xs) @ post)
        = invert_words (i + 4) n ((pre @ [d, c, b, a]) @ xs @ post)"
    using "1.prems" by (subst invert_words.simps) (simp add: nth_append list_update_append Let_def)
  also have "\<dots> = (pre @ [d, c, b, a]) @ swap_words xs @ post"
    using "1.prems" by (intro "1.IH") simp_all
  finally show ?case by simp
qed (simp_all add: invert_words_done)

lemma invert_u32_endianness_aligned:
  assumes "n mod 4 = 0" and "n \<le> length buf"
  shows "invert_u32_endianness buf n s =
           (Inr (), swap_words (take n buf) @ drop n buf, s\<lparr>inv_calls := inv_calls s @ [n]\<rparr>)"
proof -
  have "invert_words 0 n ([] @ take n buf @ drop n buf) = [] @ swap_words (take n buf) @ drop n buf"
    using assms by (intro invert_words_swap) simp_all
  with assms show ?thesis by (simp add: invert_u32_endianness_def)
qed

text \<open>
  C9. On a buffer whose length is a multiple of 4, \<open>invert_u32_endianness\<close> succeeds,
  and applied to its own result it succeeds again and gives the buffer back.
\<close>

theorem invert_u32_endianness_involution:
  assumes "length buf mod 4 = 0"
  shows "\<exists>buf' s' s''. invert_u32_endianness buf (length buf) s = (Inr (), buf', s') \<and>
           invert_u32_endianness buf' (length buf) s' = (Inr (), buf, s'')"
  using assms by (simp add: invert_u32_endianness_aligned length_swap_words swap_words_twice)

theorem invert_u32_endianness_involution_witness:
  "\<exists>buf' s' s''.
      invert_u32_endianness [1, 2, 3, 4, 5, 6, 7, 8] (length [1, 2, 3, 4, 5, 6, 7, 8 :: u8])
        \<lparr>inp = [], outp = [], room = 0, errs = [], inv_calls = []\<rparr> = (Inr (), buf', s') \<and>
      invert_u32_endianness buf' (length [1, 2, 3, 4, 5, 6, 7, 8 :: u8]) s'
        = (Inr (), [1, 2, 3, 4, 5, 6, 7, 8], s'')"
  using invert_u32_endianness_involution [of "[1, 2, 3, 4, 5, 6, 7, 8]"
    "\<lparr>inp = [], outp = [], room = 0, errs = [], inv_calls = []\<rparr>"]
  by simp

section \<open>The copy loop of \<open>process_firmware\<close>\<close>

lemma SYNC_distinct: "SYNC_canonical \<noteq> SYNC_inverted"
  by (simp add: SYNC_canonical_def SYNC_inverted_def)

lemma corrected_append:
  "length xs mod 4 = 0 \<Longrightarrow> corrected m (xs @ ys) = corrected m xs @ corrected m ys"
  by (simp add: corrected_def swap_words_append)

lemma length_corrected: "length (corrected m xs) = length xs"
  by (simp add: corrected_def length_swap_words)

lemma fwrite_full:
  "length buf \<le> room s \<Longrightarrow>
   fwrite buf s = (length buf, s\<lparr>outp := outp s @ buf, room := room s - length buf\<rparr>)"
  by (simp add: fwrite_def Let_def)

lemma fwrite_short:
  "room s < length buf \<Longrightarrow>
   fwrite buf s = (room s, s\<lparr>outp := outp s @ take (room s) buf, room := 0\<rparr>)"
  by (simp add: fwrite_def Let_def)

text \<open>One turn of the loop, when \<open>fw_length\<close> is a multiple of 4.\<close>

lemma copy_chunks_turn:
  fixes n c :: nat and ie :: bool and s :: io
  assumes "0 < n" and "n mod 4 = 0"
  defines "k \<equiv> min 4096 n"
  defines "chunk \<equiv> take k (inp s)"
  defines "m \<equiv> (c = 0 \<and> take 4 chunk = SYNC_inverted \<or> ie)"
  defines "calls \<equiv> inv_calls s @ (if m then [k] else [])"
  shows "copy_chunks n c ie s =
    (if length (inp s) < k then fail (Cannot_read_chunk (length (inp s))) (s\<lparr>inp := []\<rparr>)
     else if c = 0 \<and> take 4 chunk \<noteq> SYNC_inverted \<and> take 4 chunk \<noteq> SYNC_canonical then
       fail (Invalid_SYNC_word (chunk ! 0) (chunk ! 1) (chunk ! 2) (chunk ! 3))
         (s\<lparr>inp := drop k (inp s)\<rparr>)
     else if room s < k then
       fail (Unable_to_write (room s))
         (s\<lparr>inp := drop k (inp s), inv_calls := calls,
            outp := outp s @ take (room s) (corrected m chunk), room := 0\<rparr>)
     else copy_chunks (n - k) (c + 1) m
         (s\<lparr>inp := drop k (inp s), inv_calls := calls,
            outp := outp s @ corrected m chunk, room := room s - k\<rparr>))"
proof -
  have k4: "k mod 4 = 0" using assms(2) by (simp add: k_def min_def)
  have rd: "fread k s = (chunk, s\<lparr>inp := drop k (inp s)\<rparr>)"
    by (simp add: fread_def chunk_def)
  show ?thesis
  proof (cases "length (inp s) < k")
    case True
    then have "length chunk \<noteq> k" and "chunk = inp s" and "drop k (inp s) = []"
      by (simp_all add: chunk_def)
    then show ?thesis using assms(1) True
      by (subst copy_chunks.simps) (simp add: rd Let_def k_def [symmetric])
  next
    case False
    then have len: "length chunk = k" by (simp add: chunk_def)
    have iv: "invert_u32_endianness chunk k s' =
        (Inr (), swap_words chunk, s'\<lparr>inv_calls := inv_calls s' @ [k]\<rparr>)" for s'
      using invert_u32_endianness_aligned [of k chunk s'] k4 len by simp
    show ?thesis
    proof (cases "c = 0 \<and> take 4 chunk \<noteq> SYNC_inverted \<and> take 4 chunk \<noteq> SYNC_canonical")
      case True
      then show ?thesis using assms(1) False len
        by (subst copy_chunks.simps) (simp add: rd Let_def k_def [symmetric])
    next
      case good: False
      have dec: "(if c = 0 then
                      (if take 4 chunk = SYNC_inverted then Inr True
                       else if take 4 chunk \<noteq> SYNC_canonical then
                         Inl (Invalid_SYNC_word (chunk ! 0) (chunk ! 1) (chunk ! 2) (chunk ! 3))
                       else Inr ie)
                    else Inr ie) = Inr m"
        using good by (auto simp: m_def SYNC_distinct)
      define s2 where "s2 = (if m then s\<lparr>inp := drop k (inp s), inv_calls := inv_calls s @ [k]\<rparr>
           else s\<lparr>inp := drop k (inp s)\<rparr>)"
      have cor: "(if m then
                           (case invert_u32_endianness chunk k (s\<lparr>inp := drop k (inp s)\<rparr>) of
                              (_, chunk', s') \<Rightarrow> (chunk', s'))
                         else (chunk, s\<lparr>inp := drop k (inp s)\<rparr>)) = (corrected m chunk, s2)"
        by (simp add: iv corrected_def s2_def)
      have unfold: "copy_chunks n c ie s =
          (case fwrite (corrected m chunk) s2 of (r, s3) \<Rightarrow>
             if r \<noteq> k then fail (Unable_to_write r) s3
             else copy_chunks (n - k) (c + 1) m s3)"
        using assms(1) len
        by (subst copy_chunks.simps) (simp add: rd Let_def k_def [symmetric] dec cor)
      have s2: "room s2 = room s" "outp s2 = outp s" by (simp_all add: s2_def)
      show ?thesis
      proof (cases "room s < k")
        case True
        then have "fwrite (corrected m chunk) s2 =
            (room s, s2\<lparr>outp := outp s @ take (room s) (corrected m chunk), room := 0\<rparr>)"
          using fwrite_short [of s2 "corrected m chunk"] by (simp add: s2 length_corrected len)
        then show ?thesis using True False good
          by (auto simp: unfold s2_def calls_def fail_def eprint_def)
      next
        case full: False
        then have "fwrite (corrected m chunk) s2 =
            (k, s2\<lparr>outp := outp s @ corrected m chunk, room := room s - k\<rparr>)"
          using fwrite_full [of "corrected m chunk" s2] by (simp add: s2 length_corrected len)
        then show ?thesis using full False good
          by (auto simp: unfold s2_def calls_def fail_def eprint_def)
      qed
    qed
  qed
qed


lemma copy_chunks_zero: "copy_chunks 0 c ie s = (Inr (), s)"
  by (subst copy_chunks.simps) simp

lemma min_chunk_facts:
  fixes n :: nat
  assumes "0 < n" and "n mod 4 = 0"
  shows "4 \<le> min 4096 n" and "min 4096 n mod 4 = 0" and "min 4096 n \<le> n"
    and "(n - min 4096 n) mod 4 = 0" and "n - min 4096 n < n"
    and "min 4096 n < 4096 \<Longrightarrow> n - min 4096 n = 0"
  using assms by (auto simp: min_def)

lemma copy_chunks_next:
  assumes "0 < n" and "n mod 4 = 0" and "k = min 4096 n" and "k \<le> length (inp s)"
    and "chunk = take k (inp s)"
    and "c = 0 \<Longrightarrow> take 4 chunk = SYNC_inverted \<or> take 4 chunk = SYNC_canonical"
    and "k \<le> room s" and "m = (c = 0 \<and> take 4 chunk = SYNC_inverted \<or> ie)"
  shows "copy_chunks n c ie s = copy_chunks (n - k) (c + 1) m
           (s\<lparr>inp := drop k (inp s), inv_calls := inv_calls s @ (if m then [k] else []),
              outp := outp s @ corrected m chunk, room := room s - k\<rparr>)"
proof -
  have "\<not> length (inp s) < min 4096 n" and "\<not> room s < min 4096 n"
    and "\<not> (c = 0 \<and> take 4 (take (min 4096 n) (inp s)) \<noteq> SYNC_inverted \<and>
            take 4 (take (min 4096 n) (inp s)) \<noteq> SYNC_canonical)"
    using assms(3-7) by auto
  then show ?thesis
    unfolding copy_chunks_turn [OF assms(1,2), where s = s and c = c and ie = ie]
    by (simp only: if_False assms(3,5,8))
qed

lemma chunk_lengths_step:
  assumes "0 < n"
  shows "chunk_lengths n = min 4096 n # chunk_lengths (n - min 4096 n)"
proof (cases "n < 4096")
  case True
  with assms show ?thesis by (simp add: chunk_lengths_def)
next
  case False
  then have "n div 4096 = Suc ((n - 4096) div 4096)" and "(n - 4096) mod 4096 = n mod 4096"
    by (simp_all add: le_div_geq le_mod_geq)
  with False show ?thesis by (simp add: chunk_lengths_def)
qed

text \<open>The whole loop, when the payload is on the input and the output takes it.\<close>

lemma copy_chunks_all:
  "inp s = payload @ rest \<Longrightarrow> length payload = n \<Longrightarrow> n mod 4 = 0 \<Longrightarrow> n \<le> room s \<Longrightarrow>
   (c = 0 \<Longrightarrow> take 4 payload = SYNC_inverted \<or> take 4 payload = SYNC_canonical) \<Longrightarrow>
   m = (c = 0 \<and> take 4 payload = SYNC_inverted \<or> ie) \<Longrightarrow>
   \<exists>s'. copy_chunks n c ie s = (Inr (), s') \<and> inp s' = rest \<and>
        outp s' = outp s @ corrected m payload \<and> room s' = room s - n \<and> errs s' = errs s \<and>
        inv_calls s' = inv_calls s @ (if m then chunk_lengths n else [])"
proof (induction n arbitrary: c ie s payload rule: less_induct)
  case (less n)
  show ?case
  proof (cases "n = 0")
    case True
    with less.prems show ?thesis by (simp add: copy_chunks_zero corrected_def chunk_lengths_def)
  next
    case False
    then have pos: "0 < n" by simp
    define k where "k = min 4096 n"
    note kf = min_chunk_facts [OF pos less.prems(3), folded k_def]
    define chunk where "chunk = take k payload"
    have chunk: "chunk = take k (inp s)" and rest: "drop k (inp s) = drop k payload @ rest"
      and len: "length chunk = k"
      using less.prems(1,2) kf(3) by (simp_all add: chunk_def)
    have four: "take 4 chunk = take 4 payload" using kf(1) by (simp add: chunk_def min_def)
    define s1 where "s1 = s\<lparr>inp := drop k (inp s), inv_calls := inv_calls s @ (if m then [k] else []),
            outp := outp s @ corrected m chunk, room := room s - k\<rparr>"
    have turn: "copy_chunks n c ie s = copy_chunks (n - k) (c + 1) m s1"
      unfolding s1_def
      using pos less.prems(3) k_def _ chunk
    proof (rule copy_chunks_next)
      show "k \<le> length (inp s)" using less.prems(1,2) kf(3) by simp
      show "k \<le> room s" using less.prems(4) kf(3) by simp
      show "m = (c = 0 \<and> take 4 chunk = SYNC_inverted \<or> ie)" using less.prems(6) four by simp
      show "take 4 chunk = SYNC_inverted \<or> take 4 chunk = SYNC_canonical" if "c = 0"
        using less.prems(5) that four by simp
    qed
    have "\<exists>s'. copy_chunks (n - k) (c + 1) m s1 = (Inr (), s') \<and> inp s' = rest \<and>
        outp s' = outp s1 @ corrected m (drop k payload) \<and> room s' = room s1 - (n - k) \<and>
        errs s' = errs s1 \<and> inv_calls s' = inv_calls s1 @ (if m then chunk_lengths (n - k) else [])"
      using less.prems(2,4) kf(3,4)
      by (intro less.IH [OF kf(5)]) (simp_all add: s1_def rest)
    moreover have "corrected m chunk @ corrected m (drop k payload) = corrected m payload"
      using corrected_append [of chunk m "drop k payload"] len kf(2) by (simp add: chunk_def)
    moreover have "chunk_lengths n = k # chunk_lengths (n - k)"
      using chunk_lengths_step [OF pos] by (simp add: k_def)
    ultimately show ?thesis using kf(3) less.prems(4) by (auto simp: turn s1_def)
  qed
qed


lemma length_FIRMWARE_MAGIC_HEADER: "length FIRMWARE_MAGIC_HEADER = 48"
  by (simp add: FIRMWARE_MAGIC_HEADER_def)

lemma READ_MAGIC_HEADER_unfold:
  "READ_MAGIC_HEADER expected s =
     (if length (inp s) < length expected then fail Unable_to_read_magic (s\<lparr>inp := []\<rparr>)
      else if take (length expected) (inp s) \<noteq> expected then
        fail Invalid_magic_header (s\<lparr>inp := drop (length expected) (inp s)\<rparr>)
      else (Inr (), s\<lparr>inp := drop (length expected) (inp s)\<rparr>))"
  by (auto simp: READ_MAGIC_HEADER_def read_magic_header_def fread_def Let_def)

text \<open>Steps 1 to 4 of \<open>process_firmware\<close>, once the four bytes of the length are there.\<close>

lemma process_firmware_unfold:
  fixes s :: io and l4 rest :: "u8 list"
  assumes "inp s = l4 @ rest" and "length l4 = 4"
  defines "L \<equiv> big_endian l4"
  shows "process_firmware s =
     (if L < 52 then fail (Firmware_too_small L) (s\<lparr>inp := rest\<rparr>)
      else if L mod 4 \<noteq> 0 then fail Firmware_not_aligned (s\<lparr>inp := rest\<rparr>)
      else if length rest < 48 then fail Unable_to_read_magic (s\<lparr>inp := []\<rparr>)
      else if take 48 rest \<noteq> FIRMWARE_MAGIC_HEADER then
        fail Invalid_magic_header (s\<lparr>inp := drop 48 rest\<rparr>)
      else copy_chunks (L - 48) 0 False (s\<lparr>inp := drop 48 rest\<rparr>))"
proof -
  obtain v where rd: "read_uint 4 s = (Inr v, s\<lparr>inp := rest\<rparr>)" and v: "unat v = L"
    using read_uint_available [of l4 4 s rest] assms by auto
  have sub: "unat (v - 48) = L - 48" if "\<not> L < 52"
  proof -
    have "(48 :: u32) \<le> v" using that v by (simp add: word_le_nat_alt)
    then show ?thesis using v by (simp add: unat_sub)
  qed
  show ?thesis
    by (simp add: process_firmware_def rd v length_FIRMWARE_MAGIC_HEADER READ_MAGIC_HEADER_unfold
        sub fail_def)
qed

lemma process_firmware_short:
  "length (inp s) < 4 \<Longrightarrow>
   process_firmware s = fail (Error_reading_number 4 (length (inp s))) (s\<lparr>inp := []\<rparr>)"
  by (simp add: process_firmware_def read_uint_short fail_def)

text \<open>A firmware field that is all there and is copied as a whole.\<close>

lemma process_firmware_all:
  assumes "inp s = l4 @ FIRMWARE_MAGIC_HEADER @ payload @ rest"
    and "length l4 = 4" and "big_endian l4 = 48 + length payload"
    and "length payload mod 4 = 0" and "length payload \<le> room s"
    and "take 4 payload = SYNC_inverted \<or> take 4 payload = SYNC_canonical"
  shows "\<exists>s'. process_firmware s = (Inr (), s') \<and> inp s' = rest \<and>
           outp s' = outp s @ corrected (take 4 payload = SYNC_inverted) payload \<and>
           room s' = room s - length payload \<and> errs s' = errs s \<and>
           inv_calls s' = inv_calls s
             @ (if take 4 payload = SYNC_inverted then chunk_lengths (length payload) else [])"
proof -
  have four: "4 \<le> length payload"
    using assms(6) by (auto simp: SYNC_inverted_def SYNC_canonical_def dest: arg_cong [where f = length])
  have al: "(48 + length payload) mod 4 = 0" using assms(4) by presburger
  have "process_firmware s =
      copy_chunks (length payload) 0 False (s\<lparr>inp := payload @ rest\<rparr>)"
    using process_firmware_unfold [OF assms(1,2)] assms(3) four al
    by (simp add: length_FIRMWARE_MAGIC_HEADER)
  moreover have "\<exists>s'. copy_chunks (length payload) 0 False (s\<lparr>inp := payload @ rest\<rparr>) = (Inr (), s') \<and>
        inp s' = rest \<and>
        outp s' = outp (s\<lparr>inp := payload @ rest\<rparr>) @ corrected (take 4 payload = SYNC_inverted) payload \<and>
        room s' = room (s\<lparr>inp := payload @ rest\<rparr>) - length payload \<and>
        errs s' = errs (s\<lparr>inp := payload @ rest\<rparr>) \<and>
        inv_calls s' = inv_calls (s\<lparr>inp := payload @ rest\<rparr>)
          @ (if take 4 payload = SYNC_inverted then chunk_lengths (length payload) else [])"
    using assms(4,5,6) by (intro copy_chunks_all) simp_all
  ultimately show ?thesis by simp
qed

lemma swap_words_SYNC:
  assumes "take 4 payload = SYNC_inverted"
  shows "take 4 (swap_words payload) = SYNC_canonical"
proof -
  have "4 \<le> length payload"
    using assms by (auto simp: SYNC_inverted_def dest: arg_cong [where f = length])
  then obtain a b c d xs where "payload = a # b # c # d # xs"
    by (cases payload rule: swap_words.cases) simp_all
  with assms show ?thesis by (simp add: SYNC_inverted_def SYNC_canonical_def)
qed

text \<open>
  C2. A firmware field whose length counts the embedded magic header and a payload of
  whole words, all of it on the input, with an output that takes the payload: if the
  payload starts with the inverted SYNC word, the output receives every 4-byte word of
  the payload with its bytes reversed, the SYNC word first and now \<open>66 55 99 AA\<close>; if it
  starts with the canonical SYNC word, the output receives the payload as it is.
\<close>

theorem process_firmware_corrects_payload:
  assumes "inp s = l4 @ FIRMWARE_MAGIC_HEADER @ payload @ rest"
    and "length l4 = 4" and "big_endian l4 = 48 + length payload"
    and "length payload mod 4 = 0" and "length payload \<le> room s"
    and "take 4 payload = SYNC_inverted \<or> take 4 payload = SYNC_canonical"
  shows "\<exists>s'. process_firmware s = (Inr (), s') \<and> inp s' = rest \<and>
           outp s' = outp s @ (if take 4 payload = SYNC_inverted then swap_words payload else payload) \<and>
           (take 4 payload = SYNC_inverted \<longrightarrow> take 4 (swap_words payload) = SYNC_canonical)"
  using process_firmware_all [OF assms] swap_words_SYNC [of payload]
  by (auto simp: corrected_def)

theorem process_firmware_corrects_payload_witness:
  "(\<exists>s'. process_firmware
           \<lparr>inp = [0, 0, 0, 60] @ FIRMWARE_MAGIC_HEADER
                    @ [0xaa, 0x99, 0x55, 0x66, 1, 2, 3, 4, 5, 6, 7, 8] @ [9],
            outp = [], room = 12, errs = [], inv_calls = []\<rparr> = (Inr (), s') \<and>
         inp s' = [9] \<and> outp s' = [0x66, 0x55, 0x99, 0xaa, 4, 3, 2, 1, 8, 7, 6, 5]) \<and>
   (\<exists>s'. process_firmware
           \<lparr>inp = [0, 0, 0, 56] @ FIRMWARE_MAGIC_HEADER
                    @ [0x66, 0x55, 0x99, 0xaa, 1, 2, 3, 4] @ [],
            outp = [], room = 8, errs = [], inv_calls = []\<rparr> = (Inr (), s') \<and>
         inp s' = [] \<and> outp s' = [0x66, 0x55, 0x99, 0xaa, 1, 2, 3, 4])"
  using process_firmware_corrects_payload [of
      "\<lparr>inp = [0, 0, 0, 60] @ FIRMWARE_MAGIC_HEADER
                    @ [0xaa, 0x99, 0x55, 0x66, 1, 2, 3, 4, 5, 6, 7, 8] @ [9],
            outp = [], room = 12, errs = [], inv_calls = []\<rparr>"
      "[0, 0, 0, 60]" "[0xaa, 0x99, 0x55, 0x66, 1, 2, 3, 4, 5, 6, 7, 8]" "[9]"]
    process_firmware_corrects_payload [of
      "\<lparr>inp = [0, 0, 0, 56] @ FIRMWARE_MAGIC_HEADER
                    @ [0x66, 0x55, 0x99, 0xaa, 1, 2, 3, 4] @ [],
            outp = [], room = 8, errs = [], inv_calls = []\<rparr>"
      "[0, 0, 0, 56]" "[0x66, 0x55, 0x99, 0xaa, 1, 2, 3, 4]" "[]"]
  by (simp add: big_endian_def SYNC_inverted_def SYNC_canonical_def)

lemma snd_fail: "snd (fail e s) = eprint (Report e) s"
  by (simp add: fail_def)

text \<open>What the loop hands to the corrector and what it prints, whatever the streams hold.\<close>

lemma copy_chunks_calls:
  "n mod 4 = 0 \<Longrightarrow>
   \<exists>calls es. inv_calls (snd (copy_chunks n c ie s)) = inv_calls s @ calls \<and>
      errs (snd (copy_chunks n c ie s)) = errs s @ es \<and>
      (\<forall>x\<in>set calls. x mod 4 = 0) \<and> (\<forall>x\<in>set (butlast calls). x = 4096) \<and>
      (n = 0 \<longrightarrow> calls = []) \<and> (\<forall>x. Report (Invalid_buffer_size x) \<notin> set es)"
proof (induction n arbitrary: c ie s rule: less_induct)
  case (less n)
  show ?case
  proof (cases "n = 0")
    case True
    then show ?thesis by (simp add: copy_chunks_zero)
  next
    case False
    then have pos: "0 < n" by simp
    define k where "k = min 4096 n"
    note kf = min_chunk_facts [OF pos less.prems, folded k_def]
    define m where "m = (c = 0 \<and> take 4 (take k (inp s)) = SYNC_inverted \<or> ie)"
    define own where "own = (if m then [k] else [])"
    have own: "\<forall>x\<in>set own. x mod 4 = 0" "butlast own = []"
      using kf(2) by (simp_all add: own_def)
    define s1 where "s1 = s\<lparr>inp := drop k (inp s), inv_calls := inv_calls s @ own,
            outp := outp s @ corrected m (take k (inp s)), room := room s - k\<rparr>"
    define bad where "bad = (c = 0 \<and> take 4 (take k (inp s)) \<noteq> SYNC_inverted \<and>
            take 4 (take k (inp s)) \<noteq> SYNC_canonical)"
    note turn = copy_chunks_turn [OF pos less.prems, where s = s and c = c and ie = ie,
        folded k_def, folded m_def, folded own_def, folded s1_def, folded bad_def]
    consider (short) "length (inp s) < k"
      | (sync) "\<not> length (inp s) < k" "bad"
      | (full) "\<not> length (inp s) < k" "\<not> bad" "room s < k"
      | (recur) "\<not> length (inp s) < k" "\<not> bad" "\<not> room s < k"
      by blast
    then show ?thesis
    proof cases
      case short
      then show ?thesis using False by (simp add: turn snd_fail eprint_def)
    next
      case sync
      then show ?thesis using False by (simp add: turn snd_fail eprint_def)
    next
      case full
      then show ?thesis using False own by (simp add: turn snd_fail eprint_def)
    next
      case recur
      then have eq: "copy_chunks n c ie s = copy_chunks (n - k) (c + 1) m s1"
        by (simp add: turn)
      obtain calls es where ih:
        "inv_calls (snd (copy_chunks (n - k) (c + 1) m s1)) = inv_calls s1 @ calls"
        "errs (snd (copy_chunks (n - k) (c + 1) m s1)) = errs s1 @ es"
        "\<forall>x\<in>set calls. x mod 4 = 0" "\<forall>x\<in>set (butlast calls). x = 4096"
        "n - k = 0 \<longrightarrow> calls = []" "\<forall>x. Report (Invalid_buffer_size x) \<notin> set es"
        using less.IH [OF kf(5) kf(4), of "c + 1" m s1] by (elim exE conjE) (rule that)
      have "\<forall>x\<in>set (butlast (own @ calls)). x = 4096"
      proof (cases "calls = []")
        case True
        then show ?thesis by (simp add: own)
      next
        case nonempty: False
        with ih(5) have "n - k \<noteq> 0" by blast
        with kf(6) have "k = 4096" using kf(3) by (cases "k < 4096") (auto simp: k_def)
        then show ?thesis using ih(4) nonempty by (auto simp: own_def butlast_append)
      qed
      then show ?thesis using ih own(1) False
        by (intro exI [of _ "own @ calls"] exI [of _ es]) (auto simp: eq s1_def)
    qed
  qed
qed

section \<open>The sizes that the corrector is called with\<close>

text \<open>
  C4. Whatever the input and the output, across a call of \<open>process_firmware\<close> every
  size that \<open>invert_u32_endianness\<close> is called with is a multiple of 4, every size but
  the last is 4096, and the message of the corrector's error branch is never printed.
\<close>

theorem process_firmware_corrector_sizes:
  "\<exists>calls es. inv_calls (snd (process_firmware s)) = inv_calls s @ calls \<and>
      errs (snd (process_firmware s)) = errs s @ es \<and>
      (\<forall>n\<in>set calls. n mod 4 = 0) \<and> (\<forall>n\<in>set (butlast calls). n = 4096) \<and>
      (\<forall>n. Report (Invalid_buffer_size n) \<notin> set es)"
proof (cases "length (inp s) < 4")
  case True
  then show ?thesis by (simp add: process_firmware_short snd_fail eprint_def)
next
  case False
  define l4 where "l4 = take 4 (inp s)"
  define rest where "rest = drop 4 (inp s)"
  define L where "L = big_endian l4"
  have split: "inp s = l4 @ rest" and len: "length l4 = 4"
    using False by (simp_all add: l4_def rest_def)
  note unf = process_firmware_unfold [OF split len, folded L_def]
  show ?thesis
  proof (cases "L < 52 \<or> L mod 4 \<noteq> 0 \<or> length rest < 48 \<or> take 48 rest \<noteq> FIRMWARE_MAGIC_HEADER")
    case True
    then show ?thesis by (auto simp: unf snd_fail eprint_def)
  next
    case ok: False
    then have eq: "process_firmware s = copy_chunks (L - 48) 0 False (s\<lparr>inp := drop 48 rest\<rparr>)"
      by (simp add: unf)
    from ok have "52 \<le> L" and "L mod 4 = 0" by auto
    then have "(L - 48) mod 4 = 0" by presburger
    from copy_chunks_calls [OF this, of 0 False "s\<lparr>inp := drop 48 rest\<rparr>"]
    obtain calls es where
      "inv_calls (snd (copy_chunks (L - 48) 0 False (s\<lparr>inp := drop 48 rest\<rparr>)))
         = inv_calls (s\<lparr>inp := drop 48 rest\<rparr>) @ calls"
      "errs (snd (copy_chunks (L - 48) 0 False (s\<lparr>inp := drop 48 rest\<rparr>)))
         = errs (s\<lparr>inp := drop 48 rest\<rparr>) @ es"
      "\<forall>n\<in>set calls. n mod 4 = 0" "\<forall>n\<in>set (butlast calls). n = 4096"
      "\<forall>n. Report (Invalid_buffer_size n) \<notin> set es"
      by (elim exE conjE) (rule that)
    then show ?thesis by (intro exI [of _ calls] exI [of _ es]) (simp add: eq)
  qed
qed

text \<open>A payload of 4100 bytes in inverted order: the corrector is called with 4096 and with 4.\<close>

theorem process_firmware_corrector_sizes_witness:
  "\<exists>calls es.
      inv_calls (snd (process_firmware
         \<lparr>inp = [0, 0, 0x10, 0x34] @ FIRMWARE_MAGIC_HEADER @ (SYNC_inverted @ replicate 4096 0) @ [],
           outp = [], room = 4100, errs = [], inv_calls = []\<rparr>)) = calls \<and>
      calls = [4096, 4] \<and>
      errs (snd (process_firmware
         \<lparr>inp = [0, 0, 0x10, 0x34] @ FIRMWARE_MAGIC_HEADER @ (SYNC_inverted @ replicate 4096 0) @ [],
           outp = [], room = 4100, errs = [], inv_calls = []\<rparr>)) = es \<and>
      (\<forall>n\<in>set calls. n mod 4 = 0) \<and> (\<forall>n\<in>set (butlast calls). n = 4096) \<and>
      (\<forall>n. Report (Invalid_buffer_size n) \<notin> set es)"
  using process_firmware_corrector_sizes [of
        "\<lparr>inp = [0, 0, 0x10, 0x34] @ FIRMWARE_MAGIC_HEADER @ (SYNC_inverted @ replicate 4096 0) @ [],
           outp = [], room = 4100, errs = [], inv_calls = []\<rparr>"]
    process_firmware_all [of
        "\<lparr>inp = [0, 0, 0x10, 0x34] @ FIRMWARE_MAGIC_HEADER @ (SYNC_inverted @ replicate 4096 0) @ [],
           outp = [], room = 4100, errs = [], inv_calls = []\<rparr>"
        "[0, 0, 0x10, 0x34]" "SYNC_inverted @ replicate 4096 0" "[]"]
  by (auto simp: big_endian_def chunk_lengths_def SYNC_inverted_def)

section \<open>Rejected lengths and SYNC words\<close>

text \<open>
  C5. When the four bytes of \<open>total_length\<close> give less than 52 or no multiple of 4,
  \<open>process_firmware\<close> fails with the error of the check that failed, and nothing after
  these four bytes has been read: no byte of the embedded magic header or of the payload.
\<close>

theorem process_firmware_rejects_length:
  assumes "inp s = l4 @ rest" and "length l4 = 4"
    and "big_endian l4 < 52 \<or> big_endian l4 mod 4 \<noteq> 0"
  shows "process_firmware s =
           fail (if big_endian l4 < 52 then Firmware_too_small (big_endian l4)
                 else Firmware_not_aligned) (s\<lparr>inp := rest\<rparr>)"
  using assms(3) by (auto simp: process_firmware_unfold [OF assms(1,2)])

theorem process_firmware_rejects_length_witness:
  "process_firmware \<lparr>inp = [0, 0, 0, 48] @ [0xff, 0xff, 0xff], outp = [], room = 9, errs = [], inv_calls = []\<rparr>
     = (Inl (Firmware_too_small 48),
        \<lparr>inp = [0xff, 0xff, 0xff], outp = [], room = 9,
           errs = [Report (Firmware_too_small 48)], inv_calls = []\<rparr>) \<and>
   process_firmware \<lparr>inp = [0, 0, 0, 54] @ [0xff, 0xff, 0xff], outp = [], room = 9, errs = [], inv_calls = []\<rparr>
     = (Inl Firmware_not_aligned,
        \<lparr>inp = [0xff, 0xff, 0xff], outp = [], room = 9,
           errs = [Report Firmware_not_aligned], inv_calls = []\<rparr>)"
  using process_firmware_rejects_length [of
      "\<lparr>inp = [0, 0, 0, 48] @ [0xff, 0xff, 0xff], outp = [], room = 9, errs = [], inv_calls = []\<rparr>"
      "[0, 0, 0, 48]" "[0xff, 0xff, 0xff]"]
    process_firmware_rejects_length [of
      "\<lparr>inp = [0, 0, 0, 54] @ [0xff, 0xff, 0xff], outp = [], room = 9, errs = [], inv_calls = []\<rparr>"
      "[0, 0, 0, 54]" "[0xff, 0xff, 0xff]"]
  by (simp add: big_endian_def fail_def eprint_def)

text \<open>
  C7. When the two bytes of the length of a metadata field give more than
  \<open>MAX_META_FIELD_LENGTH\<close>, \<open>read_meta_field\<close> fails with \<open>Field_too_large\<close>, and
  nothing after these two bytes has been read.
\<close>

theorem read_meta_field_rejects_length:
  assumes "inp s = [hi, lo] @ rest" and "MAX_META_FIELD_LENGTH < big_endian [hi, lo]"
  shows "read_meta_field junk s = Some (fail Field_too_large (s\<lparr>inp := rest\<rparr>))"
proof -
  obtain v where "read_uint 2 s = (Inr v, s\<lparr>inp := rest\<rparr>)" and "unat v = big_endian [hi, lo]"
    using read_uint_available [of "[hi, lo]" 2 s rest] assms(1) by auto
  with assms(2) show ?thesis by (simp add: read_meta_field_def)
qed

theorem read_meta_field_rejects_length_witness:
  "read_meta_field (replicate 256 0)
      \<lparr>inp = [0x01, 0x2c] @ [0x68, 0x65, 0x6c, 0x6c, 0x6f], outp = [], room = 0, errs = [], inv_calls = []\<rparr>
     = Some (Inl Field_too_large,
        \<lparr>inp = [0x68, 0x65, 0x6c, 0x6c, 0x6f], outp = [], room = 0,
           errs = [Report Field_too_large], inv_calls = []\<rparr>)"
  using read_meta_field_rejects_length [of
      "\<lparr>inp = [0x01, 0x2c] @ [0x68, 0x65, 0x6c, 0x6c, 0x6f], outp = [], room = 0, errs = [], inv_calls = []\<rparr>"
      "0x01" "0x2c" "[0x68, 0x65, 0x6c, 0x6c, 0x6f]" "replicate 256 0"]
  by (simp add: big_endian_def fail_def eprint_def MAX_META_FIELD_LENGTH_def)

text \<open>
  C8. A firmware field with a valid length and embedded magic header whose payload starts
  with four bytes that are neither SYNC word: \<open>process_firmware\<close> fails and the output
  is as it was. When the first chunk is on the input in full, the error is
  \<open>Invalid_SYNC_word\<close> with these four bytes.
\<close>

theorem process_firmware_rejects_SYNC:
  assumes "inp s = l4 @ FIRMWARE_MAGIC_HEADER @ payload" and "length l4 = 4"
    and "52 \<le> big_endian l4" and "big_endian l4 mod 4 = 0"
    and "4 \<le> length payload"
    and "take 4 payload \<noteq> SYNC_canonical" and "take 4 payload \<noteq> SYNC_inverted"
  shows "\<exists>e. fst (process_firmware s) = Inl e \<and> outp (snd (process_firmware s)) = outp s \<and>
           (min 4096 (big_endian l4 - 48) \<le> length payload \<longrightarrow>
              e = Invalid_SYNC_word (payload ! 0) (payload ! 1) (payload ! 2) (payload ! 3))"
proof -
  define n where "n = big_endian l4 - 48"
  define k where "k = min 4096 n"
  have pos: "0 < n" and al: "n mod 4 = 0" using assms(3,4) by (simp add: n_def, unfold n_def, presburger)
  note kf = min_chunk_facts [OF pos al, folded k_def]
  have eq: "process_firmware s = copy_chunks n 0 False (s\<lparr>inp := payload\<rparr>)"
    using process_firmware_unfold [OF assms(1,2)] assms(3,4)
    by (simp add: length_FIRMWARE_MAGIC_HEADER n_def)
  have k4: "min 4 k = 4" using kf(1) by simp
  note turn = copy_chunks_turn [OF pos al, where s = "s\<lparr>inp := payload\<rparr>" and c = 0 and ie = False,
      folded k_def]
  show ?thesis
  proof (cases "length payload < k")
    case True
    then show ?thesis
      by (simp add: eq turn fail_def eprint_def n_def [symmetric] k_def [symmetric])
  next
    case False
    then show ?thesis using assms(6,7) kf(1)
      by (simp add: eq turn fail_def eprint_def k4 n_def [symmetric] k_def [symmetric])
  qed
qed

theorem process_firmware_rejects_SYNC_witness:
  "\<exists>e. fst (process_firmware
            \<lparr>inp = [0, 0, 0, 56] @ FIRMWARE_MAGIC_HEADER @ [0x66, 0x55, 0x99, 0xab, 1, 2, 3, 4],
             outp = [], room = 8, errs = [], inv_calls = []\<rparr>) = Inl e \<and>
       outp (snd (process_firmware
            \<lparr>inp = [0, 0, 0, 56] @ FIRMWARE_MAGIC_HEADER @ [0x66, 0x55, 0x99, 0xab, 1, 2, 3, 4],
             outp = [], room = 8, errs = [], inv_calls = []\<rparr>)) = [] \<and>
       e = Invalid_SYNC_word 0x66 0x55 0x99 0xab"
  using process_firmware_rejects_SYNC [of
      "\<lparr>inp = [0, 0, 0, 56] @ FIRMWARE_MAGIC_HEADER @ [0x66, 0x55, 0x99, 0xab, 1, 2, 3, 4],
             outp = [], room = 8, errs = [], inv_calls = []\<rparr>"
      "[0, 0, 0, 56]" "[0x66, 0x55, 0x99, 0xab, 1, 2, 3, 4]"]
  by (simp add: big_endian_def SYNC_inverted_def SYNC_canonical_def)

section \<open>Only \<open>process_firmware\<close> writes to the output\<close>

lemma READ_MAGIC_HEADER_frame:
  "outp (snd (READ_MAGIC_HEADER expected s)) = outp s"
  "room (snd (READ_MAGIC_HEADER expected s)) = room s"
  "suffix (inp (snd (READ_MAGIC_HEADER expected s))) (inp s)"
  by (simp_all add: READ_MAGIC_HEADER_unfold fail_def eprint_def suffix_drop)

lemma read_meta_field_frame:
  assumes "read_meta_field j s = Some (r, s')"
  shows "outp s' = outp s" and "room s' = room s" and "suffix (inp s') (inp s)"
  using assms
  by (auto simp: read_meta_field_def read_uint_def fread_def fail_def eprint_def Let_def suffix_drop
      split: prod.splits sum.splits if_splits option.splits)

lemma read_fields_Nil:
  "inp s = [] \<Longrightarrow> read_fields junk k s = Some (fail (Cannot_read_field_type 0) (s\<lparr>inp := []\<rparr>))"
  by (subst read_fields.simps) (simp add: fread_def)

lemma case_process_firmware:
  "(case process_firmware s of (Inl e, s2) \<Rightarrow> Some (Inl e, s2) | (Inr _, s2) \<Rightarrow> Some (Inr (), s2))
     = Some (process_firmware s)"
  by (cases "process_firmware s") (auto split: sum.splits)

lemma read_fields_Cons:
  "inp s = t # rest \<Longrightarrow>
   read_fields junk k s =
     (if t = 0x61 \<or> t = 0x62 \<or> t = 0x63 \<or> t = 0x64 then
        (case read_meta_field (junk k) (s\<lparr>inp := rest\<rparr>) of
           None \<Rightarrow> None
         | Some (Inl e, s2) \<Rightarrow> Some (Inl e, s2)
         | Some (Inr _, s2) \<Rightarrow> read_fields junk (k + 1) s2)
      else if t = 0x65 then Some (process_firmware (s\<lparr>inp := rest\<rparr>))
      else Some (fail (Unknown_field_type t) (s\<lparr>inp := rest\<rparr>)))"
  by (subst read_fields.simps) (simp add: fread_def case_process_firmware)

lemma read_fields_frame:
  "read_fields junk k s = Some (r, s') \<Longrightarrow>
   outp s' = outp s \<or>
   (\<exists>s1. outp s1 = outp s \<and> room s1 = room s \<and> suffix (inp s1) (inp s) \<and>
         process_firmware s1 = (r, s'))"
proof (induction "length (inp s)" arbitrary: k s rule: less_induct)
  case less
  show ?case
  proof (cases "inp s")
    case Nil
    with less.prems show ?thesis by (auto simp: read_fields_Nil fail_def eprint_def)
  next
    case (Cons t rest)
    define s1 where "s1 = s\<lparr>inp := rest\<rparr>"
    note unf = read_fields_Cons [OF Cons, of junk k, folded s1_def]
    have s1: "outp s1 = outp s" "room s1 = room s" "inp s1 = rest" by (simp_all add: s1_def)
    consider (meta) "t = 0x61 \<or> t = 0x62 \<or> t = 0x63 \<or> t = 0x64"
      | (firmware) "\<not> (t = 0x61 \<or> t = 0x62 \<or> t = 0x63 \<or> t = 0x64)" "t = 0x65"
      | (unknown) "\<not> (t = 0x61 \<or> t = 0x62 \<or> t = 0x63 \<or> t = 0x64)" "t \<noteq> 0x65"
      by blast
    then show ?thesis
    proof cases
      case meta
      with less.prems unf have run:
        "(case read_meta_field (junk k) s1 of
           None \<Rightarrow> None
         | Some (Inl e, s2) \<Rightarrow> Some (Inl e, s2)
         | Some (Inr _, s2) \<Rightarrow> read_fields junk (k + 1) s2) = Some (r, s')"
        by simp
      then obtain r2 s2 where m: "read_meta_field (junk k) s1 = Some (r2, s2)"
        by (cases "read_meta_field (junk k) s1") auto
      note fr = read_meta_field_frame [OF m]
      show ?thesis
      proof (cases r2)
        case (Inl e)
        with run m fr s1 show ?thesis by simp
      next
        case (Inr u)
        with run m have rec: "read_fields junk (k + 1) s2 = Some (r, s')" by simp
        have "length (inp s2) \<le> length rest" using fr(3) s1(3) by (auto simp: suffix_def)
        then have "length (inp s2) < length (inp s)" using Cons by simp
        from less.hyps [OF this rec] fr s1 Cons show ?thesis
          by (auto intro: suffix_order.trans suffix_ConsI)
      qed
    next
      case firmware
      with less.prems unf have "process_firmware s1 = (r, s')" by simp
      with s1 Cons show ?thesis by (auto intro: suffix_ConsI)
    next
      case unknown
      with less.prems unf s1 show ?thesis by (auto simp: fail_def eprint_def)
    qed
  qed
qed


text \<open>What the loop writes is the start of the corrected payload, whatever the streams hold.\<close>

lemma copy_chunks_prefix:
  "n mod 4 = 0 \<Longrightarrow>
   \<exists>w. outp (snd (copy_chunks n c ie s)) = outp s @ w \<and>
       prefix w (corrected (c = 0 \<and> take 4 (inp s) = SYNC_inverted \<or> ie) (take n (inp s)))"
proof (induction n arbitrary: c ie s rule: less_induct)
  case (less n)
  show ?case
  proof (cases "n = 0")
    case True
    then show ?thesis by (simp add: copy_chunks_zero)
  next
    case False
    then have pos: "0 < n" by simp
    define k where "k = min 4096 n"
    note kf = min_chunk_facts [OF pos less.prems, folded k_def]
    define chunk where "chunk = take k (inp s)"
    define m where "m = (c = 0 \<and> take 4 chunk = SYNC_inverted \<or> ie)"
    have m: "(c = 0 \<and> take 4 (inp s) = SYNC_inverted \<or> ie) = m"
      using kf(1) by (simp add: m_def chunk_def min_def)
    define own where "own = (if m then [k] else [])"
    define s1 where "s1 = s\<lparr>inp := drop k (inp s), inv_calls := inv_calls s @ own,
            outp := outp s @ corrected m chunk, room := room s - k\<rparr>"
    define bad where "bad = (c = 0 \<and> take 4 chunk \<noteq> SYNC_inverted \<and> take 4 chunk \<noteq> SYNC_canonical)"
    note turn = copy_chunks_turn [OF pos less.prems, where s = s and c = c and ie = ie,
        folded k_def, folded chunk_def, folded m_def, folded own_def, folded s1_def, folded bad_def]
    have whole: "corrected m (take n (inp s)) = corrected m chunk @ corrected m (take (n - k) (drop k (inp s)))"
      if "\<not> length (inp s) < k"
    proof -
      have "take n (inp s) = chunk @ take (n - k) (drop k (inp s))"
        using kf(3) take_add [of k "n - k" "inp s"] by (simp add: chunk_def)
      moreover have "length chunk mod 4 = 0" using that kf(2) by (simp add: chunk_def)
      ultimately show ?thesis by (simp add: corrected_append)
    qed
    consider (short) "length (inp s) < k"
      | (sync) "\<not> length (inp s) < k" "bad"
      | (full) "\<not> length (inp s) < k" "\<not> bad" "room s < k"
      | (recur) "\<not> length (inp s) < k" "\<not> bad" "\<not> room s < k"
      by blast
    then show ?thesis
    proof cases
      case short
      then show ?thesis by (simp add: turn snd_fail eprint_def)
    next
      case sync
      then show ?thesis by (simp add: turn snd_fail eprint_def)
    next
      case full
      have "prefix (take (room s) (corrected m chunk)) (corrected m (take n (inp s)))"
        using whole [OF full(1)] by (simp add: take_is_prefix prefix_prefix)
      with full show ?thesis by (simp add: turn snd_fail eprint_def m)
    next
      case recur
      then have eq: "copy_chunks n c ie s = copy_chunks (n - k) (c + 1) m s1"
        by (simp add: turn)
      obtain w where w: "outp (snd (copy_chunks (n - k) (c + 1) m s1)) = outp s1 @ w"
        "prefix w (corrected (c + 1 = 0 \<and> take 4 (inp s1) = SYNC_inverted \<or> m) (take (n - k) (inp s1)))"
        using less.IH [OF kf(5) kf(4), of "c + 1" m s1] by (elim exE conjE) (rule that)
      from w(2) have "prefix (corrected m chunk @ w) (corrected m (take n (inp s)))"
        using whole [OF recur(1)] by (simp add: s1_def)
      with w(1) show ?thesis
        by (intro exI [of _ "corrected m chunk @ w"]) (simp add: eq m s1_def)
    qed
  qed
qed

lemma process_firmware_output:
  "\<exists>w. outp (snd (process_firmware s)) = outp s @ w \<and>
       prefix w (corrected (firmware_inverted (inp s)) (firmware_payload (inp s)))"
proof (cases "length (inp s) < 4")
  case True
  then show ?thesis by (simp add: process_firmware_short snd_fail eprint_def)
next
  case False
  define l4 where "l4 = take 4 (inp s)"
  define rest where "rest = drop 4 (inp s)"
  define L where "L = big_endian l4"
  have split: "inp s = l4 @ rest" and len: "length l4 = 4"
    using False by (simp_all add: l4_def rest_def)
  note unf = process_firmware_unfold [OF split len, folded L_def]
  show ?thesis
  proof (cases "L < 52 \<or> L mod 4 \<noteq> 0 \<or> length rest < 48 \<or> take 48 rest \<noteq> FIRMWARE_MAGIC_HEADER")
    case True
    then show ?thesis by (auto simp: unf snd_fail eprint_def)
  next
    case ok: False
    then have eq: "process_firmware s = copy_chunks (L - 48) 0 False (s\<lparr>inp := drop 48 rest\<rparr>)"
      by (simp add: unf)
    from ok have "52 \<le> L" and "L mod 4 = 0" by auto
    then have "(L - 48) mod 4 = 0" by presburger
    from copy_chunks_prefix [OF this, of 0 False "s\<lparr>inp := drop 48 rest\<rparr>"]
    obtain w where
      "outp (snd (copy_chunks (L - 48) 0 False (s\<lparr>inp := drop 48 rest\<rparr>)))
         = outp (s\<lparr>inp := drop 48 rest\<rparr>) @ w"
      "prefix w (corrected (0 = (0::nat) \<and> take 4 (inp (s\<lparr>inp := drop 48 rest\<rparr>)) = SYNC_inverted \<or> False)
          (take (L - 48) (inp (s\<lparr>inp := drop 48 rest\<rparr>))))"
      by (elim exE conjE) (rule that)
    then show ?thesis
      by (intro exI [of _ w])
        (simp add: eq firmware_inverted_def firmware_payload_def rest_def L_def l4_def)
  qed
qed

text \<open>
  C10. Reading a magic header writes nothing to the output, and neither does
  \<open>read_meta_field\<close>. So a run of \<open>process_bit_file\<close> that returns leaves the output as
  it was, or it has reached a firmware field with the output as it was and its result is
  that of \<open>process_firmware\<close> there. What \<open>process_firmware\<close> adds to the output is the
  corrected payload of the field or, when it fails, a part of it from its start.
\<close>

theorem output_only_from_firmware:
  "outp (snd (READ_MAGIC_HEADER BIT_MAGIC_HEADER s)) = outp s \<and>
   (\<forall>r s'. read_meta_field j s = Some (r, s') \<longrightarrow> outp s' = outp s) \<and>
   (\<forall>r s'. process_bit_file junk s = Some (r, s') \<longrightarrow>
      outp s' = outp s \<or>
      (\<exists>s1. outp s1 = outp s \<and> room s1 = room s \<and> suffix (inp s1) (inp s) \<and>
            process_firmware s1 = (r, s'))) \<and>
   (\<exists>w. outp (snd (process_firmware s)) = outp s @ w \<and>
        prefix w (corrected (firmware_inverted (inp s)) (firmware_payload (inp s))))"
proof (intro conjI allI impI)
  show "outp (snd (READ_MAGIC_HEADER BIT_MAGIC_HEADER s)) = outp s"
    by (rule READ_MAGIC_HEADER_frame)
next
  fix r s' assume "read_meta_field j s = Some (r, s')"
  then show "outp s' = outp s" by (rule read_meta_field_frame)
next
  fix r s' assume run: "process_bit_file junk s = Some (r, s')"
  define s0 where "s0 = snd (READ_MAGIC_HEADER BIT_MAGIC_HEADER s)"
  have s0: "outp s0 = outp s" "room s0 = room s" "suffix (inp s0) (inp s)"
    unfolding s0_def by (rule READ_MAGIC_HEADER_frame)+
  from run have "read_fields junk 0 s0 = Some (r, s')"
    by (simp add: process_bit_file_def s0_def split: prod.splits)
  from read_fields_frame [OF this] s0
  show "outp s' = outp s \<or>
      (\<exists>s1. outp s1 = outp s \<and> room s1 = room s \<and> suffix (inp s1) (inp s) \<and>
            process_firmware s1 = (r, s'))"
    by (auto intro: suffix_order.trans)
next
  show "\<exists>w. outp (snd (process_firmware s)) = outp s @ w \<and>
        prefix w (corrected (firmware_inverted (inp s)) (firmware_payload (inp s)))"
    by (rule process_firmware_output)
qed

text \<open>
  The container magic header, the metadata field \<open>hello\<close> and a firmware field of three
  words in inverted order: the twelve bytes of the output are those of \<open>process_firmware\<close>.
\<close>

theorem output_only_from_firmware_witness:
  "\<exists>s1. outp s1 = [] \<and> room s1 = 12 \<and>
     suffix (inp s1)
       (BIT_MAGIC_HEADER @ [0x61, 0, 6, 0x68, 0x65, 0x6c, 0x6c, 0x6f, 0] @ [0x65, 0, 0, 0, 60]
              @ FIRMWARE_MAGIC_HEADER @ [0xaa, 0x99, 0x55, 0x66, 1, 2, 3, 4, 5, 6, 7, 8]) \<and>
     process_firmware s1 = (Inr (),
       \<lparr>inp = [], outp = [0x66, 0x55, 0x99, 0xaa, 4, 3, 2, 1, 8, 7, 6, 5], room = 0,
               errs = [Meta [0x68, 0x65, 0x6c, 0x6c, 0x6f]], inv_calls = [12]\<rparr>)"
proof -
  have run: "process_bit_file (\<lambda>k. replicate 256 0)
     \<lparr>inp = BIT_MAGIC_HEADER @ [0x61, 0, 6, 0x68, 0x65, 0x6c, 0x6c, 0x6f, 0] @ [0x65, 0, 0, 0, 60]
              @ FIRMWARE_MAGIC_HEADER @ [0xaa, 0x99, 0x55, 0x66, 1, 2, 3, 4, 5, 6, 7, 8],
      outp = [], room = 12, errs = [], inv_calls = []\<rparr>
   = Some (Inr (), \<lparr>inp = [], outp = [0x66, 0x55, 0x99, 0xaa, 4, 3, 2, 1, 8, 7, 6, 5], room = 0,
               errs = [Meta [0x68, 0x65, 0x6c, 0x6c, 0x6f]], inv_calls = [12]\<rparr>)"
    by code_simp
  from output_only_from_firmware [of
     "\<lparr>inp = BIT_MAGIC_HEADER @ [0x61, 0, 6, 0x68, 0x65, 0x6c, 0x6c, 0x6f, 0] @ [0x65, 0, 0, 0, 60]
              @ FIRMWARE_MAGIC_HEADER @ [0xaa, 0x99, 0x55, 0x66, 1, 2, 3, 4, 5, 6, 7, 8],
      outp = [], room = 12, errs = [], inv_calls = []\<rparr>"
     "[]" "\<lambda>k. replicate 256 0"] run
  show ?thesis by simp
qed

section \<open>The line of a metadata field\<close>

lemma read_meta_field_unfold:
  assumes "inp s = [hi, lo] @ body @ rest" and "big_endian [hi, lo] = length body"
    and "length body \<le> MAX_META_FIELD_LENGTH"
  shows "read_meta_field junk s =
           (case percent_s (body @ drop (length body) junk) of
              None \<Rightarrow> None
            | Some text \<Rightarrow> Some (Inr (), eprint (Meta text) (s\<lparr>inp := rest\<rparr>)))"
proof -
  obtain v where "read_uint 2 s = (Inr v, s\<lparr>inp := body @ rest\<rparr>)" and "unat v = length body"
    using read_uint_available [of "[hi, lo]" 2 s "body @ rest"] assms(1,2) by auto
  with assms(3) show ?thesis
    by (simp add: read_meta_field_def fread_def Let_def split: option.split)
qed

text \<open>
  A body with no zero byte is printed with what the buffer held after it, up to the first
  zero byte there; a body of 256 bytes with no zero byte is read past the end of the buffer.
\<close>

lemma read_meta_field_unterminated:
  assumes "inp s = [hi, lo] @ body @ rest" and "big_endian [hi, lo] = length body"
    and "length body \<le> MAX_META_FIELD_LENGTH" and "0 \<notin> set body"
    and "length junk = MAX_META_FIELD_LENGTH"
  shows "read_meta_field junk s =
           (if 0 \<in> set (drop (length body) junk) then
              Some (Inr (), eprint (Meta (body @ takeWhile (\<lambda>c. c \<noteq> 0) (drop (length body) junk)))
                              (s\<lparr>inp := rest\<rparr>))
            else None)"
proof -
  have "takeWhile (\<lambda>c. c \<noteq> 0) (body @ drop (length body) junk)
          = body @ takeWhile (\<lambda>c. c \<noteq> 0) (drop (length body) junk)"
    using assms(4) by (intro takeWhile_append2) auto
  with assms(4) show ?thesis
    by (simp add: read_meta_field_unfold [OF assms(1-3)] percent_s_def)
qed

lemma read_meta_field_overread:
  assumes "inp s = [hi, lo] @ body @ rest" and "big_endian [hi, lo] = length body"
    and "length body = MAX_META_FIELD_LENGTH" and "0 \<notin> set body"
    and "length junk = MAX_META_FIELD_LENGTH"
  shows "read_meta_field junk s = None"
  using read_meta_field_unterminated [OF assms(1,2) _ assms(4,5)] assms(3,5) by simp

text \<open>
  C6, as the program has it. A metadata field within the ceiling whose body is on the
  input and holds a zero byte: \<open>read_meta_field\<close> succeeds, has read the field and nothing
  more, and prints one line, the bytes of the body before its first zero byte. Any other
  byte value goes through as it is.
\<close>

theorem read_meta_field_prints_string:
  assumes "inp s = [hi, lo] @ body @ rest" and "big_endian [hi, lo] = length body"
    and "length body \<le> MAX_META_FIELD_LENGTH" and "0 \<in> set body"
  shows "read_meta_field junk s =
           Some (Inr (), eprint (Meta (takeWhile (\<lambda>c. c \<noteq> 0) body)) (s\<lparr>inp := rest\<rparr>))"
proof -
  have "takeWhile (\<lambda>c. c \<noteq> 0) (body @ drop (length body) junk) = takeWhile (\<lambda>c. c \<noteq> 0) body"
    using assms(4) by (intro takeWhile_append1 [of 0]) auto
  with assms(4) show ?thesis
    by (simp add: read_meta_field_unfold [OF assms(1-3)] percent_s_def)
qed

text \<open>The length 6 and the body \<open>hello\<close> with its zero byte: the line is \<open>hello\<close>.\<close>

theorem read_meta_field_prints_string_witness:
  "read_meta_field (replicate 256 0xaa)
      \<lparr>inp = [0, 6] @ [0x68, 0x65, 0x6c, 0x6c, 0x6f, 0] @ [0x65], outp = [], room = 0, errs = [],
         inv_calls = []\<rparr>
     = Some (Inr (), \<lparr>inp = [0x65], outp = [], room = 0, errs = [Meta [0x68, 0x65, 0x6c, 0x6c, 0x6f]],
         inv_calls = []\<rparr>)"
  using read_meta_field_prints_string [of
      "\<lparr>inp = [0, 6] @ [0x68, 0x65, 0x6c, 0x6c, 0x6f, 0] @ [0x65], outp = [], room = 0, errs = [],
         inv_calls = []\<rparr>"
      0 6 "[0x68, 0x65, 0x6c, 0x6c, 0x6f, 0]" "[0x65]" "replicate 256 0xaa"]
  by (simp add: big_endian_def MAX_META_FIELD_LENGTH_def eprint_def)

text \<open>
  C6 as claimed does not hold: of the five bytes \<open>68 65 00 6C 6F\<close> the line has the
  first two only.
\<close>

theorem read_meta_field_line_counterexample:
  "read_meta_field (replicate 256 0xaa)
      \<lparr>inp = [0, 5, 0x68, 0x65, 0, 0x6c, 0x6f], outp = [], room = 0, errs = [], inv_calls = []\<rparr>
     = Some (Inr (), \<lparr>inp = [], outp = [], room = 0, errs = [Meta [0x68, 0x65]], inv_calls = []\<rparr>) \<and>
   Meta [0x68, 0x65] \<noteq> Meta [0x68, 0x65, 0, 0x6c, 0x6f]"
  by code_simp

section \<open>A mismatch of the container magic header\<close>

text \<open>After a mismatch the fields are read as after a match, with one more message printed.\<close>

lemma process_bit_file_after_mismatch:
  assumes "13 \<le> length (inp s)" and "take 13 (inp s) \<noteq> BIT_MAGIC_HEADER"
  shows "process_bit_file junk s =
           read_fields junk 0 (eprint (Report Invalid_magic_header) (s\<lparr>inp := drop 13 (inp s)\<rparr>))"
proof -
  have "length BIT_MAGIC_HEADER = 13" by (simp add: BIT_MAGIC_HEADER_def)
  with assms show ?thesis
    by (simp add: process_bit_file_def READ_MAGIC_HEADER_unfold fail_def)
qed

text \<open>
  C1. A run whose input does not start with the container magic header is to abort with
  a non-zero status before a field tag is read. \<open>process_bit_file\<close> does not look at what
  \<open>READ_MAGIC_HEADER\<close> returns: on thirteen zero bytes followed by a well-formed firmware
  field, the message of the mismatch is printed, the field is read and copied to the
  output, and \<open>main\<close> returns 0.
\<close>

theorem main_ignores_magic_mismatch:
  "main (\<lambda>k. replicate 256 0)
     \<lparr>inp = replicate 13 0 @ [0x65, 0, 0, 0, 52] @ FIRMWARE_MAGIC_HEADER @ [0x66, 0x55, 0x99, 0xaa],
      outp = [], room = 4, errs = [], inv_calls = []\<rparr>
   = Some (0, \<lparr>inp = [], outp = [0x66, 0x55, 0x99, 0xaa], room = 0,
               errs = [Report Invalid_magic_header], inv_calls = []\<rparr>)"
  by code_simp

end
